theory Spec2Isabelle
  imports Main "HOL-Library.Word"
begin

unbundle bit_operations_syntax

section \<open>Addresses and the library functions the package calls\<close>

text \<open>
  Go's \<open>net.IP\<close> is a byte slice. A nil slice and an empty slice both have length 0 and
  the package never tells them apart, so both are the empty list here.
\<close>

type_synonym byte = "8 word"
type_synonym IP = "byte list"

definition IPv4len :: nat where "IPv4len = 4"
definition IPv6len :: nat where "IPv6len = 16"

text \<open>\<open>bytes.Compare\<close> of the standard library: lexicographic, a proper prefix is smaller;
  the result is -1, 0 or 1.\<close>

fun bytes_Compare :: "byte list \<Rightarrow> byte list \<Rightarrow> int" where
  "bytes_Compare [] [] = 0"
| "bytes_Compare [] (y # ys) = - 1"
| "bytes_Compare (x # xs) [] = 1"
| "bytes_Compare (x # xs) (y # ys) =
     (if x < y then - 1 else if y < x then 1 else bytes_Compare xs ys)"

text \<open>\<open>net.IP.To4\<close>: a 4-byte slice is returned as it is, a 16-byte slice with the
  IPv4-in-IPv6 prefix (ten zero bytes, then \<open>ff ff\<close>) gives its last four bytes, anything
  else gives nil (\<open>None\<close>).\<close>

definition isZeros :: "IP \<Rightarrow> bool" where
  "isZeros p = list_all (\<lambda>b. b = 0) p"

definition To4 :: "IP \<Rightarrow> IP option" where
  "To4 ip =
     (if length ip = IPv4len then Some ip
      else if length ip = IPv6len \<and> isZeros (take 10 ip) \<and> ip ! 10 = 0xff \<and> ip ! 11 = 0xff
        then Some (drop 12 (take 16 ip))
      else None)"

text \<open>\<open>net.IPv4 a b c d\<close>: the 16-byte IPv4-in-IPv6 form of an IPv4 address.\<close>

definition v4InV6Prefix :: IP where
  "v4InV6Prefix = [0, 0, 0, 0, 0, 0, 0, 0, 0, 0, 0xff, 0xff]"

definition IPv4 :: "byte \<Rightarrow> byte \<Rightarrow> byte \<Rightarrow> byte \<Rightarrow> IP" where
  "IPv4 a b c d = v4InV6Prefix @ [a, b, c, d]"

text \<open>\<open>net.IP.To16\<close>: a 4-byte slice is widened with the prefix, a 16-byte slice is
  returned as it is, anything else gives nil.\<close>

definition To16 :: "IP \<Rightarrow> IP option" where
  "To16 ip =
     (if length ip = IPv4len then Some (IPv4 (ip ! 0) (ip ! 1) (ip ! 2) (ip ! 3))
      else if length ip = IPv6len then Some ip
      else None)"

text \<open>\<open>big.Int.SetBytes\<close>: the bytes read as a big-endian unsigned integer.\<close>

definition SetBytes :: "byte list \<Rightarrow> int" where
  "SetBytes buf = foldl (\<lambda>acc b. acc * 256 + uint b) 0 buf"

text \<open>\<open>net.IP.String\<close> and what it calls in \<open>net/netip\<close>: the digit table, a byte
  in decimal, the dotted form of four bytes, the 16-bit groups of sixteen bytes, a group
  in hexadecimal, the search for the longest run of zero groups (the first one of at least
  two groups wins) and the loop that writes the groups around the compressed run.\<close>

definition digits :: string where
  "digits = ''0123456789abcdef''"

definition appendDecimal :: "byte \<Rightarrow> string" where
  "appendDecimal x =
     (if x \<ge> 100 then [digits ! unat (x div 100)] else [])
     @ (if x \<ge> 10 then [digits ! unat (x div 10 mod 10)] else [])
     @ [digits ! unat (x mod 10)]"

definition string4 :: "IP \<Rightarrow> string" where
  "string4 p =
     appendDecimal (p ! 0) @ ''.'' @ appendDecimal (p ! 1) @ ''.''
     @ appendDecimal (p ! 2) @ ''.'' @ appendDecimal (p ! 3)"

definition v6u16 :: "IP \<Rightarrow> nat \<Rightarrow> 16 word" where
  "v6u16 ip i = push_bit 8 (ucast (ip ! (2 * i))) OR ucast (ip ! (2 * i + 1))"

definition appendHex :: "16 word \<Rightarrow> string" where
  "appendHex x =
     (if x \<ge> 0x1000 then [digits ! unat (drop_bit 12 x)] else [])
     @ (if x \<ge> 0x100 then [digits ! unat (drop_bit 8 x AND 0xf)] else [])
     @ (if x \<ge> 0x10 then [digits ! unat (drop_bit 4 x AND 0xf)] else [])
     @ [digits ! unat (x AND 0xf)]"

definition zeroRunFrom :: "IP \<Rightarrow> nat \<Rightarrow> nat" where
  "zeroRunFrom ip i = i + length (takeWhile (\<lambda>j. v6u16 ip j = 0) [i..<8])"

definition zeroRun :: "IP \<Rightarrow> nat \<times> nat" where
  "zeroRun ip =
     foldl (\<lambda>(zeroStart, zeroEnd) i.
              let j = zeroRunFrom ip i; l = j - i
              in if l \<ge> 2 \<and> l > zeroEnd - zeroStart then (i, j) else (zeroStart, zeroEnd))
       (255, 255) [0..<8]"

text \<open>In the output loop the search result always has \<open>zeroStart < zeroEnd\<close> when a run
  was found; the test \<open>i < zeroEnd\<close> states it, so that the jump to \<open>zeroEnd\<close> moves
  forward.\<close>

function appendTo6 :: "IP \<Rightarrow> nat \<Rightarrow> nat \<Rightarrow> nat \<Rightarrow> string" where
  "appendTo6 ip zeroStart zeroEnd i =
     (if i \<ge> 8 then []
      else if i = zeroStart \<and> i < zeroEnd then
        ''::'' @ (if zeroEnd \<ge> 8 then []
                  else appendHex (v6u16 ip zeroEnd) @ appendTo6 ip zeroStart zeroEnd (zeroEnd + 1))
      else (if i > 0 then '':'' else []) @ appendHex (v6u16 ip i)
           @ appendTo6 ip zeroStart zeroEnd (i + 1))"
  by pat_completeness auto
termination
  by (relation "measure (\<lambda>(ip, zs, ze, i). 8 - i)") auto

declare appendTo6.simps [simp del]

definition string6 :: "IP \<Rightarrow> string" where
  "string6 ip = (case zeroRun ip of (zeroStart, zeroEnd) \<Rightarrow> appendTo6 ip zeroStart zeroEnd 0)"

text \<open>\<open>String\<close> itself: \<open><nil>\<close> for an empty slice, \<open>?\<close> and the bytes in hexadecimal
  for a length that is neither 4 nor 16, the dotted form when \<open>To4\<close> succeeds, the
  colon-hex form otherwise. (The mixed form that \<open>netip\<close> has for IPv4-in-IPv6 addresses
  is never reached from here: such an address passes \<open>To4\<close>.)\<close>

definition hexString :: "byte list \<Rightarrow> string" where
  "hexString b = concat (map (\<lambda>tn. [digits ! unat (drop_bit 4 tn), digits ! unat (tn AND 0xf)]) b)"

definition ipString :: "IP \<Rightarrow> string" where
  "ipString ip =
     (if length ip = 0 then ''<nil>''
      else if length ip \<noteq> IPv4len \<and> length ip \<noteq> IPv6len then ''?'' @ hexString ip
      else (case To4 ip of
              Some p4 \<Rightarrow> string4 p4
            | None \<Rightarrow> string6 ip))"

section \<open>The package: families, ranges, the constructor\<close>

datatype Family = V4Family | V6Family

text \<open>The interface \<open>Range\<close> has two implementations, the structs \<open>v4Range\<close> and
  \<open>v6Range\<close>, each holding \<open>Start\<close> and \<open>End\<close>.\<close>

datatype Range = v4Range (Start: IP) (End: IP) | v6Range (Start: IP) (End: IP)

text \<open>Modelled from the spec: \<open>isV4RangeValid\<close> is called by \<open>New\<close> but its body is not
  in range.go. The spec's construction step 1: both addresses are valid IPv4 addresses
  (4-byte representable) and start <= end under byte-wise comparison of their 4-byte
  form.\<close>

definition isV4RangeValid :: "IP \<Rightarrow> IP \<Rightarrow> bool" where
  "isV4RangeValid start end' =
     (case (To4 start, To4 end') of
        (Some s4, Some e4) \<Rightarrow> bytes_Compare s4 e4 \<le> 0
      | _ \<Rightarrow> False)"

text \<open>Modelled from the spec: \<open>isV6RangeValid\<close> is called by \<open>New\<close> but its body is not
  in range.go. The spec's construction step 2: both addresses are valid IPv6 addresses
  (16-byte representable, and not also representable as IPv4) and start <= end under
  byte-wise comparison of their 16-byte form.\<close>

definition isV6RangeValid :: "IP \<Rightarrow> IP \<Rightarrow> bool" where
  "isV6RangeValid start end' =
     (To4 start = None \<and> To4 end' = None \<and>
      (case (To16 start, To16 end') of
         (Some s16, Some e16) \<Rightarrow> bytes_Compare s16 e16 \<le> 0
       | _ \<Rightarrow> False))"

text \<open>\<open>New\<close> returns nil (\<open>None\<close>) when neither check passes; it stores the two slices as
  they were given.\<close>

definition New :: "IP \<Rightarrow> IP \<Rightarrow> Range option" where
  "New start end' =
     (if isV4RangeValid start end' then Some (v4Range start end')
      else if isV6RangeValid start end' then Some (v6Range start end')
      else None)"

definition Family :: "Range \<Rightarrow> Family" where
  "Family r = (case r of v4Range s e \<Rightarrow> V4Family | v6Range s e \<Rightarrow> V6Family)"

text \<open>\<open>String\<close> formats the two addresses with \<open>%s-%s\<close>; \<open>net.IP\<close> is a \<open>Stringer\<close>, so
  each is written by its \<open>String\<close> method.\<close>

fun String :: "Range \<Rightarrow> string" where
  "String (v4Range s e) = ipString s @ ''-'' @ ipString e"
| "String (v6Range s e) = ipString s @ ''-'' @ ipString e"

fun Contains :: "Range \<Rightarrow> IP \<Rightarrow> bool" where
  "Contains (v4Range s e) ip = (bytes_Compare ip s \<ge> 0 \<and> bytes_Compare ip e \<le> 0)"
| "Contains (v6Range s e) ip = (bytes_Compare ip s \<ge> 0 \<and> bytes_Compare ip e \<le> 0)"

text \<open>\<open>v4ToInt\<close> works on \<open>int64\<close>. It indexes the result of \<open>To4\<close> without a check, so
  it panics (\<open>None\<close>) when \<open>To4\<close> gives nil.\<close>

definition v4ToInt :: "IP \<Rightarrow> 64 word option" where
  "v4ToInt ip =
     (case To4 ip of
        None \<Rightarrow> None
      | Some p \<Rightarrow>
          Some (push_bit 24 (ucast (p ! 0)) OR push_bit 16 (ucast (p ! 1))
                OR push_bit 8 (ucast (p ! 2)) OR ucast (p ! 3)))"

text \<open>\<open>Size\<close>: the IPv4 variant subtracts in \<open>int64\<close> and hands the result to
  \<open>big.NewInt\<close>; the IPv6 variant computes on \<open>big.Int\<close> throughout. \<open>None\<close> is the panic
  of \<open>v4ToInt\<close>.\<close>

fun Size :: "Range \<Rightarrow> int option" where
  "Size (v4Range s e) =
     (case v4ToInt e of
        None \<Rightarrow> None
      | Some ei \<Rightarrow>
          (case v4ToInt s of
             None \<Rightarrow> None
           | Some si \<Rightarrow> Some (sint (ei - si + 1))))"
| "Size (v6Range s e) = Some (0 + SetBytes e - SetBytes s + 1)"

section \<open>Notions the properties are stated with\<close>

text \<open>The big-endian value of a byte sequence, most significant byte first.\<close>

fun be_int :: "byte list \<Rightarrow> int" where
  "be_int [] = 0"
| "be_int (b # bs) = uint b * 256 ^ length bs + be_int bs"

text \<open>Byte-wise lexicographic order, from the library's \<open>lexord\<close> over the unsigned
  order of bytes.\<close>

definition lex_less :: "byte list \<Rightarrow> byte list \<Rightarrow> bool" where
  "lex_less a b = ((a, b) \<in> lexord {(x, y). x < y})"

definition lex_le :: "byte list \<Rightarrow> byte list \<Rightarrow> bool" where
  "lex_le a b = (a = b \<or> lex_less a b)"

text \<open>The family of an address, as the \<open>net\<close> package classifies it: IPv4 when \<open>To4\<close>
  succeeds, IPv6 when only \<open>To16\<close> does, and no family for any other byte sequence.\<close>

definition ipFamily :: "IP \<Rightarrow> Family option" where
  "ipFamily ip =
     (if To4 ip \<noteq> None then Some V4Family
      else if To16 ip \<noteq> None then Some V6Family
      else None)"

text \<open>The fixed-width form of an address in its family: four bytes for IPv4, sixteen for
  IPv6 (and the empty sequence for what is no address).\<close>

definition fixedForm :: "IP \<Rightarrow> IP" where
  "fixedForm ip =
     (case To4 ip of
        Some p4 \<Rightarrow> p4
      | None \<Rightarrow> (case To16 ip of Some p16 \<Rightarrow> p16 | None \<Rightarrow> []))"

text \<open>Numerals without leading zeros, in base ten and in lower-case base sixteen.\<close>

fun decimal :: "nat \<Rightarrow> string" where
  "decimal n = (if n < 10 then [digits ! n] else decimal (n div 10) @ [digits ! (n mod 10)])"

fun hex :: "nat \<Rightarrow> string" where
  "hex n = (if n < 16 then [digits ! n] else hex (n div 16) @ [digits ! (n mod 16)])"

declare decimal.simps [simp del] hex.simps [simp del]

text \<open>Strings joined with a separator between neighbours.\<close>

fun join :: "string \<Rightarrow> string list \<Rightarrow> string" where
  "join sep [] = []"
| "join sep [x] = x"
| "join sep (x # y # ys) = x @ sep @ join sep (y # ys)"

text \<open>Dotted decimal: the bytes as decimal numerals, joined by dots.\<close>

definition dotted_decimal :: "byte list \<Rightarrow> string" where
  "dotted_decimal bs = join ''.'' (map (\<lambda>b. decimal (unat b)) bs)"

text \<open>The eight 16-bit groups of a 16-byte address, and groups written in hexadecimal
  joined by colons.\<close>

definition groups :: "IP \<Rightarrow> nat list" where
  "groups ip = map (\<lambda>i. unat (ip ! (2 * i)) * 256 + unat (ip ! (2 * i + 1))) [0..<8]"

definition colon_hex :: "nat list \<Rightarrow> string" where
  "colon_hex gs = join '':'' (map hex gs)"

text \<open>The shortest colon-hex form: the leftmost longest run of zero groups, when it has
  at least two groups, is replaced by \<open>::\<close>.\<close>

definition zeros_from :: "nat list \<Rightarrow> nat \<Rightarrow> nat" where
  "zeros_from gs i = length (takeWhile (\<lambda>g. g = 0) (drop i gs))"

definition longest_zeros :: "nat list \<Rightarrow> nat" where
  "longest_zeros gs = foldr max (map (zeros_from gs) [0..<length gs]) 0"

definition first_longest :: "nat list \<Rightarrow> nat" where
  "first_longest gs =
     length (takeWhile (\<lambda>i. zeros_from gs i \<noteq> longest_zeros gs) [0..<length gs])"

definition rfc5952 :: "nat list \<Rightarrow> string" where
  "rfc5952 gs =
     (let m = longest_zeros gs; i = first_longest gs
      in if m < 2 then colon_hex gs
         else colon_hex (take i gs) @ ''::'' @ colon_hex (drop (i + m) gs))"

text \<open>One step of the search loop over an abstract run length, for its invariant.\<close>

definition runStep :: "(nat \<Rightarrow> nat) \<Rightarrow> nat \<times> nat \<Rightarrow> nat \<Rightarrow> nat \<times> nat" where
  "runStep r st i =
     (case st of (zeroStart, zeroEnd) \<Rightarrow>
        if r i \<ge> 2 \<and> r i > zeroEnd - zeroStart then (i, i + r i) else (zeroStart, zeroEnd))"

text \<open>The two ends of the IPv6 address space.\<close>

definition ip6_zero :: IP where
  "ip6_zero = [0, 0, 0, 0, 0, 0, 0, 0, 0, 0, 0, 0, 0, 0, 0, 0]"

definition ip6_max :: IP where
  "ip6_max = [0xff, 0xff, 0xff, 0xff, 0xff, 0xff, 0xff, 0xff,
              0xff, 0xff, 0xff, 0xff, 0xff, 0xff, 0xff, 0xff]"

text \<open>The addresses \<open>::1\<close> and \<open>::ffff\<close>.\<close>

definition ip6_1 :: IP where
  "ip6_1 = [0, 0, 0, 0, 0, 0, 0, 0, 0, 0, 0, 0, 0, 0, 0, 1]"

definition ip6_ffff :: IP where
  "ip6_ffff = [0, 0, 0, 0, 0, 0, 0, 0, 0, 0, 0, 0, 0, 0, 0xff, 0xff]"

section \<open>Bytes, their big-endian value and their order\<close>

lemma uint_byte_bounds: "0 \<le> uint (b :: byte)" "uint (b :: byte) < 256"
  using uint_bounded [of b] by simp_all

lemma be_int_nonneg: "0 \<le> be_int bs"
  by (induction bs) simp_all

lemma be_int_less: "be_int bs < 256 ^ length bs"
proof (induction bs)
  case Nil
  show ?case by simp
next
  case (Cons b bs)
  let ?P = "(256::int) ^ length bs"
  have "uint b + 1 \<le> 256"
    using uint_byte_bounds(2) [of b] by simp
  then have "(uint b + 1) * ?P \<le> 256 * ?P"
    by (intro mult_right_mono) simp_all
  then have "uint b * ?P + ?P \<le> 256 * ?P"
    by (simp add: distrib_right)
  moreover have "be_int (b # bs) = uint b * ?P + be_int bs"
    by simp
  moreover have "(256::int) ^ length (b # bs) = 256 * ?P"
    by simp
  ultimately show ?case
    using Cons.IH by linarith
qed

lemma SetBytes_foldl:
  "foldl (\<lambda>acc b. acc * 256 + uint b) acc bs = acc * 256 ^ length bs + be_int bs"
  by (induction bs arbitrary: acc) (simp_all add: algebra_simps)

lemma SetBytes_be_int: "SetBytes bs = be_int bs"
  by (simp add: SetBytes_def SetBytes_foldl)

lemma bytes_Compare_refl: "bytes_Compare a a = 0"
  by (induction a) simp_all

lemma bytes_Compare_flip: "bytes_Compare b a = - bytes_Compare a b"
  by (induction a b rule: bytes_Compare.induct) auto

lemma bytes_Compare_eq_0: "bytes_Compare a b = 0 \<longleftrightarrow> a = b"
  by (induction a b rule: bytes_Compare.induct) auto

lemma bytes_Compare_neg: "bytes_Compare a b < 0 \<longleftrightarrow> lex_less a b"
  unfolding lex_less_def
  by (induction a b rule: bytes_Compare.induct) auto

lemma bytes_Compare_le_0: "bytes_Compare a b \<le> 0 \<longleftrightarrow> lex_le a b"
  using bytes_Compare_eq_0 [of a b] bytes_Compare_neg [of a b]
  by (auto simp: lex_le_def)

lemma bytes_Compare_ge_0: "bytes_Compare a b \<ge> 0 \<longleftrightarrow> lex_le b a"
  using bytes_Compare_le_0 [of b a] bytes_Compare_flip [of a b] by simp

lemma bytes_Compare_pos: "bytes_Compare a b > 0 \<longleftrightarrow> lex_less b a"
  using bytes_Compare_neg [of b a] bytes_Compare_flip [of a b] by simp

lemma bytes_Compare_same_prefix: "bytes_Compare (p @ a) (p @ b) = bytes_Compare a b"
  by (induction p) simp_all

lemma be_int_head_less:
  assumes "x < y" "length xs = length ys"
  shows "be_int (x # xs) < be_int (y # ys)"
proof -
  let ?P = "(256::int) ^ length ys"
  have "uint x + 1 \<le> uint y"
    using assms(1) by (simp add: word_less_def)
  then have "(uint x + 1) * ?P \<le> uint y * ?P"
    by (intro mult_right_mono) simp_all
  then have "uint x * ?P + ?P \<le> uint y * ?P"
    by (simp add: distrib_right)
  moreover have "be_int xs < ?P"
    using be_int_less [of xs] assms(2) by simp
  moreover have "0 \<le> be_int ys"
    by (rule be_int_nonneg)
  ultimately show ?thesis
    using assms(2) by simp
qed

lemma bytes_Compare_sign:
  "length a = length b \<Longrightarrow>
     (bytes_Compare a b < 0 \<longleftrightarrow> be_int a < be_int b) \<and>
     (bytes_Compare a b = 0 \<longleftrightarrow> be_int a = be_int b)"
proof (induction a b rule: list_induct2)
  case Nil
  show ?case by simp
next
  case (Cons x xs y ys)
  consider "x < y" | "y < x" | "x = y"
    using linorder_less_linear by blast
  then show ?case
  proof cases
    case 1
    then show ?thesis
      using be_int_head_less [of x y xs ys] Cons.hyps by simp
  next
    case 2
    then show ?thesis
      using be_int_head_less [of y x ys xs] Cons.hyps by auto
  next
    case 3
    then show ?thesis
      using Cons.IH Cons.hyps by simp
  qed
qed

lemma bytes_Compare_le_num:
  "length a = length b \<Longrightarrow> bytes_Compare a b \<le> 0 \<longleftrightarrow> be_int a \<le> be_int b"
  using bytes_Compare_sign [of a b] by auto

section \<open>The 64-bit word that \<open>v4ToInt\<close> assembles\<close>

lemma or_low_add:
  fixes x y :: int
  assumes "0 \<le> x" "x < 2 ^ n"
  shows "push_bit n y OR x = y * 2 ^ n + x"
proof -
  have x: "x = take_bit n x"
    using assms by (simp add: take_bit_int_eq_self)
  have "push_bit n y AND take_bit n x = 0"
    by (rule bit_eqI) (auto simp: bit_simps)
  then have "push_bit n y AND x = 0"
    using x by simp
  then show ?thesis
    by (simp add: disjunctive_add_eq_or [symmetric] push_bit_eq_mult)
qed

lemma uint_shifted_byte:
  fixes a :: byte
  assumes "n \<le> 24"
  shows "uint (push_bit n (ucast a :: 64 word)) = push_bit n (uint a)"
proof -
  have "(2::int) ^ n \<le> 2 ^ 24"
    using assms by (intro power_increasing) simp_all
  then have "uint a * 2 ^ n < 2 ^ 8 * 2 ^ 24"
    using uint_byte_bounds [of a]
    by (intro mult_less_le_imp_less) simp_all
  then have "uint a * 2 ^ n < 2 ^ 64" by simp
  moreover have "0 \<le> uint a * 2 ^ n" by simp
  ultimately have "take_bit 64 (push_bit n (uint a)) = push_bit n (uint a)"
    by (simp add: take_bit_int_eq_self push_bit_eq_mult)
  moreover have "uint (ucast a :: 64 word) = uint a"
    by (simp add: uint_up_ucast is_up)
  ultimately show ?thesis
    by (simp add: unsigned_push_bit_eq)
qed

lemma be4_uint:
  fixes a b c d :: byte
  shows "uint (push_bit 24 (ucast a) OR push_bit 16 (ucast b) OR push_bit 8 (ucast c)
               OR ucast d :: 64 word)
       = uint a * 2 ^ 24 + uint b * 2 ^ 16 + uint c * 2 ^ 8 + uint d"
proof -
  let ?A = "uint a" and ?B = "uint b" and ?C = "uint c" and ?D = "uint d"
  have ud: "uint (ucast d :: 64 word) = ?D"
    by (simp add: uint_up_ucast is_up)
  have bnd: "?A < 256" "?B < 256" "?C < 256" "?D < 256"
    "0 \<le> ?A" "0 \<le> ?B" "0 \<le> ?C" "0 \<le> ?D"
    using uint_byte_bounds by simp_all
  have s1: "push_bit 8 ?C OR ?D = ?C * 2 ^ 8 + ?D"
    using bnd by (intro or_low_add) simp_all
  have b1: "0 \<le> ?C * 2 ^ 8 + ?D" "?C * 2 ^ 8 + ?D < 2 ^ 16"
    using bnd by simp_all
  have s2: "push_bit 16 ?B OR (?C * 2 ^ 8 + ?D) = ?B * 2 ^ 16 + (?C * 2 ^ 8 + ?D)"
    using b1 by (rule or_low_add)
  have b2: "0 \<le> ?B * 2 ^ 16 + (?C * 2 ^ 8 + ?D)" "?B * 2 ^ 16 + (?C * 2 ^ 8 + ?D) < 2 ^ 24"
    using bnd by simp_all
  have s3: "push_bit 24 ?A OR (?B * 2 ^ 16 + (?C * 2 ^ 8 + ?D))
            = ?A * 2 ^ 24 + (?B * 2 ^ 16 + (?C * 2 ^ 8 + ?D))"
    using b2 by (rule or_low_add)
  show ?thesis
    by (simp only: uint_or uint_shifted_byte ud s1 s2 s3 add.assoc)
qed

section \<open>What \<open>To4\<close>, \<open>To16\<close> and the constructor accept\<close>

lemma list4_explicit:
  assumes "length (p :: 'a list) = 4"
  obtains a b c d where "p = [a, b, c, d]"
  using assms by (auto simp: numeral_eq_Suc length_Suc_conv)

lemma To4_length: "To4 ip = Some p \<Longrightarrow> length p = 4"
  by (auto simp: To4_def IPv4len_def IPv6len_def split: if_splits)

lemma To4_len4: "length ip = 4 \<Longrightarrow> To4 ip = Some ip"
  by (simp add: To4_def IPv4len_def)

lemma take12_prefix:
  assumes "length ip = 16" "isZeros (take 10 ip)" "ip ! 10 = 0xff" "ip ! 11 = 0xff"
  shows "take 12 ip = v4InV6Prefix"
proof (rule nth_equalityI)
  show "length (take 12 ip) = length v4InV6Prefix"
    using assms(1) by (simp add: v4InV6Prefix_def)
next
  fix i assume "i < length (take 12 ip)"
  then have i: "i < 12" by simp
  have z: "\<And>j. j < 10 \<Longrightarrow> ip ! j = 0"
  proof -
    fix j :: nat assume j: "j < 10"
    have "\<forall>b \<in> set (take 10 ip). b = 0"
      using assms(2) by (simp add: isZeros_def list_all_iff)
    moreover have "take 10 ip ! j \<in> set (take 10 ip)"
      using j assms(1) by (intro nth_mem) simp
    ultimately have "take 10 ip ! j = 0" by blast
    then show "ip ! j = 0" using j by simp
  qed
  consider "i < 10" | "i = 10" | "i = 11"
    using i by linarith
  then have "ip ! i = v4InV6Prefix ! i"
  proof cases
    case 1
    then have "v4InV6Prefix ! i = 0"
      by (auto simp: v4InV6Prefix_def nth_Cons' )
    then show ?thesis using z [OF 1] by simp
  next
    case 2
    then show ?thesis using assms(3) by (simp add: v4InV6Prefix_def)
  next
    case 3
    then show ?thesis using assms(4) by (simp add: v4InV6Prefix_def)
  qed
  then show "take 12 ip ! i = v4InV6Prefix ! i"
    using i by simp
qed

lemma To4_len16:
  assumes "length ip = 16" "To4 ip = Some p"
  shows "ip = v4InV6Prefix @ p"
proof -
  have c: "isZeros (take 10 ip)" "ip ! 10 = 0xff" "ip ! 11 = 0xff" and p: "p = drop 12 ip"
    using assms by (auto simp: To4_def IPv4len_def IPv6len_def split: if_splits)
  have "take 12 ip = v4InV6Prefix"
    using assms(1) c by (rule take12_prefix)
  then show ?thesis
    using p append_take_drop_id [of 12 ip] by simp
qed

lemma To4_cases:
  assumes "To4 ip = Some p"
  shows "(length ip = 4 \<and> p = ip) \<or> (length ip = 16 \<and> ip = v4InV6Prefix @ p)"
proof (cases "length ip = 4")
  case True
  then show ?thesis using assms by (simp add: To4_def IPv4len_def)
next
  case False
  then have "length ip = 16"
    using assms by (auto simp: To4_def IPv4len_def IPv6len_def split: if_splits)
  then show ?thesis using To4_len16 [OF _ assms] by simp
qed

lemma To4_IPv4: "To4 (IPv4 a b c d) = Some [a, b, c, d]"
  by (simp add: To4_def IPv4_def v4InV6Prefix_def IPv4len_def IPv6len_def isZeros_def)

lemma To4_None_To16:
  assumes "To4 ip = None" "To16 ip = Some q"
  shows "length ip = 16 \<and> q = ip"
  using assms by (auto simp: To4_def To16_def IPv4len_def IPv6len_def split: if_splits)

lemma To16_len16: "length ip = 16 \<Longrightarrow> To16 ip = Some ip"
  by (simp add: To16_def IPv4len_def IPv6len_def)

lemma To16_None_To4: "To16 ip = None \<Longrightarrow> To4 ip = None"
  by (auto simp: To4_def To16_def IPv4len_def IPv6len_def split: if_splits)

lemma isV6RangeValid_iff:
  "isV6RangeValid s e \<longleftrightarrow>
     To4 s = None \<and> To4 e = None \<and> length s = 16 \<and> length e = 16 \<and> bytes_Compare s e \<le> 0"
  by (auto simp: isV6RangeValid_def To16_len16 dest: To4_None_To16 split: option.splits)

lemma isV4RangeValid_iff:
  "isV4RangeValid s e \<longleftrightarrow>
     (\<exists>s4 e4. To4 s = Some s4 \<and> To4 e = Some e4 \<and> bytes_Compare s4 e4 \<le> 0)"
  by (auto simp: isV4RangeValid_def split: option.splits)

lemma not_both_valid: "isV4RangeValid s e \<Longrightarrow> \<not> isV6RangeValid s e"
  by (auto simp: isV4RangeValid_iff isV6RangeValid_iff)

lemma New_v4_iff: "New s e = Some (v4Range s' e') \<longleftrightarrow> s' = s \<and> e' = e \<and> isV4RangeValid s e"
  by (auto simp: New_def)

lemma New_v6_iff: "New s e = Some (v6Range s' e') \<longleftrightarrow> s' = s \<and> e' = e \<and> isV6RangeValid s e"
  by (auto simp: New_def dest: not_both_valid)

lemma New_None_iff: "New s e = None \<longleftrightarrow> \<not> isV4RangeValid s e \<and> \<not> isV6RangeValid s e"
  by (simp add: New_def)

lemma raw_order_same_width:
  assumes "To4 s = Some s4" "To4 e = Some e4" "length s = length e"
  shows "bytes_Compare s e = bytes_Compare s4 e4"
  using To4_cases [OF assms(1)] To4_cases [OF assms(2)] assms(3)
        bytes_Compare_same_prefix [of v4InV6Prefix s4 e4]
  by auto

lemma New_raw_order:
  assumes "New s e = Some r" "length s = length e"
  shows "bytes_Compare s e \<le> 0"
proof (cases r)
  case (v4Range s' e')
  then have "isV4RangeValid s e" using assms(1) by (simp add: New_v4_iff)
  then show ?thesis
    using raw_order_same_width [OF _ _ assms(2)] by (auto simp: isV4RangeValid_iff)
next
  case (v6Range s' e')
  then have "isV6RangeValid s e" using assms(1) by (simp add: New_v6_iff)
  then show ?thesis by (simp add: isV6RangeValid_iff)
qed

lemma New_fields: "New s e = Some r \<Longrightarrow> Start r = s \<and> End r = e"
  by (auto simp: New_def split: if_splits)

section \<open>The size of an IPv4 range\<close>

lemma be_int4: "be_int [a, b, c, d] = uint a * 2 ^ 24 + uint b * 2 ^ 16 + uint c * 2 ^ 8 + uint d"
  by simp

lemma v4ToInt_Some:
  assumes "To4 ip = Some p"
  shows "\<exists>w. v4ToInt ip = Some w \<and> uint w = be_int p"
proof -
  obtain a b c d where p: "p = [a, b, c, d]"
    using To4_length [OF assms] by (rule list4_explicit)
  let ?W = "push_bit 24 (ucast a) OR push_bit 16 (ucast b) OR push_bit 8 (ucast c)
            OR ucast d :: 64 word"
  have "v4ToInt ip = Some ?W"
    using assms by (simp add: v4ToInt_def p)
  moreover have "uint ?W = be_int p"
    unfolding p be_int4 by (rule be4_uint)
  ultimately show ?thesis by blast
qed

lemma sint_diff_succ:
  fixes x y :: "64 word"
  assumes "uint x < 2 ^ 32" "uint y < 2 ^ 32"
  shows "sint (x - y + 1) = uint x - uint y + 1"
proof -
  let ?k = "uint x - uint y + 1"
  have "x - y + 1 = word_of_int ?k"
    by simp
  then have "sint (x - y + 1) = signed_take_bit 63 ?k"
    by (simp only: sint_sbintrunc') simp
  moreover have "- (2 ^ 63) \<le> ?k" "?k < 2 ^ 63"
  proof -
    have n: "(2::int) ^ 32 = 4294967296" "(2::int) ^ 63 = 9223372036854775808"
      by simp_all
    have "0 \<le> uint x" "0 \<le> uint y"
      by simp_all
    then show "- (2 ^ 63) \<le> ?k" "?k < 2 ^ 63"
      using assms unfolding n by linarith+
  qed
  ultimately show ?thesis
    by (simp only: signed_take_bit_int_eq_self)
qed

lemma Size_v4:
  assumes "To4 s = Some s4" "To4 e = Some e4"
  shows "Size (v4Range s e) = Some (be_int e4 - be_int s4 + 1)"
proof -
  obtain ws where ws: "v4ToInt s = Some ws" "uint ws = be_int s4"
    using v4ToInt_Some [OF assms(1)] by blast
  obtain we where we: "v4ToInt e = Some we" "uint we = be_int e4"
    using v4ToInt_Some [OF assms(2)] by blast
  have "be_int s4 < 2 ^ 32" "be_int e4 < 2 ^ 32"
    using be_int_less [of s4] be_int_less [of e4] To4_length [OF assms(1)] To4_length [OF assms(2)]
    by simp_all
  then have "sint (we - ws + 1) = be_int e4 - be_int s4 + 1"
    using sint_diff_succ [of we ws] ws(2) we(2) by simp
  then show ?thesis
    using ws(1) we(1) by simp
qed

section \<open>Families, fixed-width forms and membership\<close>

lemma Contains_iff: "Contains r ip \<longleftrightarrow> bytes_Compare ip (Start r) \<ge> 0 \<and> bytes_Compare ip (End r) \<le> 0"
  by (cases r) simp_all

lemma Family_v4_iff: "Family r = V4Family \<longleftrightarrow> (\<exists>s e. r = v4Range s e)"
  by (cases r) (simp_all add: Family_def)

lemma Family_v6_iff: "Family r = V6Family \<longleftrightarrow> (\<exists>s e. r = v6Range s e)"
  by (cases r) (simp_all add: Family_def)

lemma ipFamily_v4_iff: "ipFamily ip = Some V4Family \<longleftrightarrow> To4 ip \<noteq> None"
  by (simp add: ipFamily_def)

lemma ipFamily_v6_iff: "ipFamily ip = Some V6Family \<longleftrightarrow> To4 ip = None \<and> length ip = 16"
  by (auto simp: ipFamily_def To16_len16 dest: To4_None_To16)

lemma ipFamily_None_iff: "ipFamily ip = None \<longleftrightarrow> To4 ip = None \<and> length ip \<noteq> 16"
  by (auto simp: ipFamily_def To16_len16 dest: To4_None_To16)

lemma fixedForm_v4: "To4 ip = Some p \<Longrightarrow> fixedForm ip = p"
  by (simp add: fixedForm_def)

lemma fixedForm_v6: "To4 ip = None \<Longrightarrow> length ip = 16 \<Longrightarrow> fixedForm ip = ip"
  by (simp add: fixedForm_def To16_len16)

lemma lex_le_iff_not_less: "lex_le a b \<longleftrightarrow> \<not> lex_less b a"
  using bytes_Compare_pos [of a b] bytes_Compare_le_0 [of a b] by auto


lemmas eval_defs =
  New_def isV4RangeValid_def isV6RangeValid_def To4_def To16_def IPv4len_def IPv6len_def
  isZeros_def IPv4_def v4InV6Prefix_def ipFamily_def fixedForm_def lex_less_def lex_le_def
  Family_def ip6_zero_def ip6_max_def ip6_1_def ip6_ffff_def

section \<open>Sizes of constructed ranges\<close>

lemma New_v4_Size:
  assumes "New s e = Some r" "Family r = V4Family"
  shows "\<exists>s4 e4. r = v4Range s e \<and> To4 s = Some s4 \<and> To4 e = Some e4
           \<and> be_int s4 \<le> be_int e4 \<and> Size r = Some (be_int e4 - be_int s4 + 1)"
proof -
  have r: "r = v4Range s e" and v: "isV4RangeValid s e"
    using assms by (auto simp: Family_v4_iff New_v4_iff)
  obtain s4 e4 where t: "To4 s = Some s4" "To4 e = Some e4" and o: "bytes_Compare s4 e4 \<le> 0"
    using v by (auto simp: isV4RangeValid_iff)
  have "length s4 = length e4"
    using t by (simp add: To4_length)
  then have "be_int s4 \<le> be_int e4"
    using o by (simp add: bytes_Compare_le_num)
  moreover have "Size r = Some (be_int e4 - be_int s4 + 1)"
    unfolding r using t by (rule Size_v4)
  ultimately show ?thesis
    using r t by simp
qed

lemma New_v6_Size:
  assumes "New s e = Some r" "Family r = V6Family"
  shows "r = v6Range s e \<and> length s = 16 \<and> length e = 16 \<and> be_int s \<le> be_int e
       \<and> Size r = Some (be_int e - be_int s + 1)"
proof -
  have r: "r = v6Range s e" and v: "isV6RangeValid s e"
    using assms by (auto simp: Family_v6_iff New_v6_iff)
  have l: "length s = 16" "length e = 16" and o: "bytes_Compare s e \<le> 0"
    using v by (simp_all add: isV6RangeValid_iff)
  have "be_int s \<le> be_int e"
    using o l by (simp add: bytes_Compare_le_num)
  then show ?thesis
    using l by (simp add: r SetBytes_be_int)
qed

section \<open>Rendering: digits, groups and the compressed run\<close>

lemma digits_nth_in: "n < 16 \<Longrightarrow> digits ! n \<in> set digits"
  by (rule nth_mem) (simp add: digits_def)

lemma appendDecimal_decimal: "appendDecimal x = decimal (unat x)"
proof -
  let ?n = "unat x"
  have n: "?n < 256"
    using unsigned_less [of x] by simp
  have c: "x \<ge> 100 \<longleftrightarrow> ?n \<ge> 100" "x \<ge> 10 \<longleftrightarrow> ?n \<ge> 10"
    by (simp_all add: word_le_nat_alt)
  have u: "unat (x div 100) = ?n div 100" "unat (x div 10 mod 10) = ?n div 10 mod 10"
    "unat (x mod 10) = ?n mod 10"
    by (simp_all add: unat_div unat_mod)
  consider "?n < 10" | "10 \<le> ?n" "?n < 100" | "100 \<le> ?n"
    by linarith
  then show ?thesis
  proof cases
    case 1
    then show ?thesis
      by (simp add: appendDecimal_def c u decimal.simps [of ?n])
  next
    case 2
    then have "?n div 10 < 10" by simp
    then show ?thesis
      using 2 by (simp add: appendDecimal_def c u decimal.simps [of ?n] decimal.simps [of "?n div 10"])
  next
    case 3
    then have "\<not> ?n div 10 < 10" "?n div 10 div 10 < 10" "?n div 10 div 10 = ?n div 100"
      using n by (simp_all add: div_mult2_eq [symmetric])
    then show ?thesis
      using 3 by (simp add: appendDecimal_def c u decimal.simps [of ?n] decimal.simps [of "?n div 10"]
          decimal.simps [of "?n div 100"])
  qed
qed

lemma decimal_chars: "set (decimal n) \<subseteq> set digits"
proof (induction n rule: decimal.induct)
  case (1 n)
  show ?case
  proof (cases "n < 10")
    case True
    then show ?thesis
      using digits_nth_in [of n] by (simp add: decimal.simps [of n])
  next
    case False
    have "n mod 10 < 16"
      using mod_less_divisor [of 10 n] by linarith
    then show ?thesis
      using False 1 digits_nth_in [of "n mod 10"] by (simp add: decimal.simps [of n])
  qed
qed

lemma hex_chars: "set (hex n) \<subseteq> set digits"
proof (induction n rule: hex.induct)
  case (1 n)
  show ?case
  proof (cases "n < 16")
    case True
    then show ?thesis
      using digits_nth_in [of n] by (simp add: hex.simps [of n])
  next
    case False
    have "n mod 16 < 16" by simp
    then show ?thesis
      using False 1 digits_nth_in [of "n mod 16"] by (simp add: hex.simps [of n])
  qed
qed

lemma dash_not_digit: "CHR ''-'' \<notin> set digits" "CHR ''-'' \<noteq> CHR '':''" "CHR ''-'' \<noteq> CHR ''.''"
  by (simp_all add: digits_def)

lemma unat_and_0xf: "unat (w AND 0xf) = unat w mod 16" for w :: "'a::len word"
proof -
  have m: "(0xf :: 'a word) = mask 4"
    by (simp add: mask_eq_exp_minus_1)
  have "unat (w AND mask 4) = unat (take_bit 4 w)"
    by (simp only: take_bit_eq_mask)
  also have "\<dots> = take_bit 4 (unat w)"
    by (simp only: unsigned_take_bit_eq)
  also have "\<dots> = unat w mod 16"
    by (simp add: take_bit_eq_mod)
  finally show ?thesis
    by (simp only: m)
qed

lemma unat_drop_bit_div: "unat (drop_bit k w) = unat w div 2 ^ k"
  unfolding unat_drop_bit_eq by (rule drop_bit_eq_div)

lemma appendHex_hex: "appendHex x = hex (unat x)"
proof -
  let ?n = "unat x"
  have n: "?n < 65536"
    using unsigned_less [of x] by simp
  have c: "x \<ge> 0x1000 \<longleftrightarrow> ?n \<ge> 4096" "x \<ge> 0x100 \<longleftrightarrow> ?n \<ge> 256" "x \<ge> 0x10 \<longleftrightarrow> ?n \<ge> 16"
    by (simp_all add: word_le_nat_alt)
  have u: "unat (drop_bit 12 x) = ?n div 4096" "unat (drop_bit 8 x AND 0xf) = ?n div 256 mod 16"
    "unat (drop_bit 4 x AND 0xf) = ?n div 16 mod 16" "unat (x AND 0xf) = ?n mod 16"
    by (simp_all only: unat_and_0xf unat_drop_bit_div) simp_all
  have d: "?n div 16 div 16 = ?n div 256" "?n div 256 div 16 = ?n div 4096"
    by (simp_all add: div_mult2_eq [symmetric])
  consider "?n < 16" | "16 \<le> ?n" "?n < 256" | "256 \<le> ?n" "?n < 4096" | "4096 \<le> ?n"
    by linarith
  then show ?thesis
  proof cases
    case 1
    then show ?thesis
      by (simp add: appendHex_def c u hex.simps [of ?n])
  next
    case 2
    then have "?n div 16 < 16" by simp
    then show ?thesis
      using 2 by (simp add: appendHex_def c u hex.simps [of ?n] hex.simps [of "?n div 16"])
  next
    case 3
    then have "\<not> ?n div 16 < 16" "?n div 256 < 16"
      by simp_all
    then show ?thesis
      using 3 by (simp add: appendHex_def c u d hex.simps [of ?n] hex.simps [of "?n div 16"]
          hex.simps [of "?n div 256"])
  next
    case 4
    then have "\<not> ?n div 16 < 16" "\<not> ?n div 256 < 16" "?n div 4096 < 16"
      using n by simp_all
    then show ?thesis
      using 4 by (simp add: appendHex_def c u d hex.simps [of ?n] hex.simps [of "?n div 16"]
          hex.simps [of "?n div 256"] hex.simps [of "?n div 4096"])
  qed
qed

lemma uint_v6u16: "uint (v6u16 ip i) = uint (ip ! (2 * i)) * 256 + uint (ip ! (2 * i + 1))"
proof -
  let ?a = "ip ! (2 * i)" and ?b = "ip ! Suc (2 * i)"
  have ub: "uint (ucast ?b :: 16 word) = uint ?b" "uint (ucast ?a :: 16 word) = uint ?a"
    by (simp_all add: uint_up_ucast is_up)
  have "uint ?a * 2 ^ 8 < 2 ^ 8 * 2 ^ 8"
    using uint_byte_bounds [of ?a] by (intro mult_strict_right_mono) simp_all
  then have "take_bit 16 (push_bit 8 (uint ?a)) = push_bit 8 (uint ?a)"
    by (simp add: take_bit_int_eq_self push_bit_eq_mult)
  then have "uint (push_bit 8 (ucast ?a :: 16 word)) = push_bit 8 (uint ?a)"
    by (simp add: unsigned_push_bit_eq ub)
  moreover have "push_bit 8 (uint ?a) OR uint ?b = uint ?a * 2 ^ 8 + uint ?b"
    using uint_byte_bounds [of ?b] by (intro or_low_add) simp_all
  ultimately show ?thesis
    by (simp add: v6u16_def uint_or ub)
qed

lemma unat_v6u16: "unat (v6u16 ip i) = unat (ip ! (2 * i)) * 256 + unat (ip ! (2 * i + 1))"
proof -
  have "int (unat (v6u16 ip i)) = int (unat (ip ! (2 * i)) * 256 + unat (ip ! (2 * i + 1)))"
    using uint_v6u16 [of ip i] by simp
  then show ?thesis
    by (simp only: of_nat_eq_iff)
qed

lemma groups_nth: "i < 8 \<Longrightarrow> groups ip ! i = unat (v6u16 ip i)"
  by (simp add: groups_def unat_v6u16)

lemma groups_map: "groups ip = map (\<lambda>i. unat (v6u16 ip i)) [0..<8]"
  by (simp add: groups_def unat_v6u16)

lemma length_groups: "length (groups ip) = 8"
  by (simp add: groups_def)

lemma group_zero_iff: "unat (v6u16 ip j) = 0 \<longleftrightarrow> v6u16 ip j = 0"
  by (simp add: unat_eq_0)

lemma zeroRunFrom_groups:
  assumes "i \<le> 8"
  shows "zeroRunFrom ip i = i + zeros_from (groups ip) i"
proof -
  have "drop i (groups ip) = map (\<lambda>j. unat (v6u16 ip j)) [i..<8]"
    by (simp add: groups_map drop_map)
  then have "zeros_from (groups ip) i = length (takeWhile (\<lambda>j. v6u16 ip j = 0) [i..<8])"
    by (simp add: zeros_from_def takeWhile_map comp_def group_zero_iff)
  then show ?thesis
    by (simp add: zeroRunFrom_def)
qed

lemma zeros_from_le: "zeros_from gs i \<le> length gs - i"
  unfolding zeros_from_def
  using length_takeWhile_le [of "\<lambda>g. g = 0" "drop i gs"] by simp

lemma zeros_from_all_zero:
  assumes "j < zeros_from gs i"
  shows "gs ! (i + j) = 0"
proof -
  let ?t = "takeWhile (\<lambda>g. g = 0) (drop i gs)"
  have j: "j < length ?t"
    using assms by (simp add: zeros_from_def)
  then have "?t ! j \<in> set ?t"
    by (rule nth_mem)
  then have "?t ! j = 0"
    using set_takeWhileD by fastforce
  moreover have "?t ! j = drop i gs ! j"
    using j by (rule takeWhile_nth)
  moreover have "i + j < length gs"
    using zeros_from_le [of gs i] assms by linarith
  ultimately show ?thesis
    by simp
qed

lemma runStep_invariant:
  assumes "foldl (runStep r) (255, 255) [0..<k] = (zs, ze)" "k \<le> 255"
  shows "(zs = 255 \<and> ze = 255 \<and> (\<forall>i<k. r i < 2))
       \<or> (zs < k \<and> ze = zs + r zs \<and> 2 \<le> r zs \<and> (\<forall>i<k. r i \<le> r zs) \<and> (\<forall>i<zs. r i < r zs))"
  using assms
proof (induction k arbitrary: zs ze)
  case 0
  then show ?case by simp
next
  case (Suc k)
  obtain zs' ze' where p: "foldl (runStep r) (255, 255) [0..<k] = (zs', ze')"
    by (cases "foldl (runStep r) (255, 255) [0..<k]") blast
  have s: "runStep r (zs', ze') k = (zs, ze)"
    using Suc.prems(1) p by simp
  have ih: "(zs' = 255 \<and> ze' = 255 \<and> (\<forall>i<k. r i < 2))
       \<or> (zs' < k \<and> ze' = zs' + r zs' \<and> 2 \<le> r zs' \<and> (\<forall>i<k. r i \<le> r zs') \<and> (\<forall>i<zs'. r i < r zs'))"
    using Suc.IH [OF p] Suc.prems(2) by simp
  show ?case
  proof (cases "r k \<ge> 2 \<and> r k > ze' - zs'")
    case True
    then have e: "zs = k" "ze = k + r k"
      using s by (auto simp: runStep_def)
    have "\<forall>i<k. r i < r k"
      using ih True by fastforce
    then have "\<forall>i<Suc k. r i \<le> r k"
      by (metis less_Suc_eq less_imp_le order_refl)
    then show ?thesis
      using e True \<open>\<forall>i<k. r i < r k\<close> by simp
  next
    case False
    then have e: "zs = zs'" "ze = ze'"
      using s by (auto simp: runStep_def)
    from ih show ?thesis
    proof
      assume a: "zs' = 255 \<and> ze' = 255 \<and> (\<forall>i<k. r i < 2)"
      then have "r k < 2"
        using False by simp
      then have "\<forall>i<Suc k. r i < 2"
        using a by (simp add: less_Suc_eq)
      then show ?thesis
        using a e by simp
    next
      assume a: "zs' < k \<and> ze' = zs' + r zs' \<and> 2 \<le> r zs' \<and> (\<forall>i<k. r i \<le> r zs') \<and> (\<forall>i<zs'. r i < r zs')"
      then have "r k \<le> r zs'"
        using False by auto
      then have "\<forall>i<Suc k. r i \<le> r zs'"
        using a by (simp add: less_Suc_eq)
      then show ?thesis
        using a e by simp
    qed
  qed
qed

lemma zeroRun_runStep:
  "zeroRun ip = foldl (runStep (\<lambda>i. zeros_from (groups ip) i)) (255, 255) [0..<8]"
proof -
  have "(case st of (zeroStart, zeroEnd) \<Rightarrow>
           let j = zeroRunFrom ip i; l = j - i
           in if l \<ge> 2 \<and> l > zeroEnd - zeroStart then (i, j) else (zeroStart, zeroEnd))
        = runStep (\<lambda>i. zeros_from (groups ip) i) st i" if "i \<in> set [0..<8]" for st i
    using that by (cases st) (simp add: runStep_def zeroRunFrom_groups Let_def)
  then show ?thesis
    unfolding zeroRun_def by (intro foldl_cong) auto
qed

lemma zeroRun_cases:
  assumes "zeroRun ip = (zs, ze)"
  shows "(zs = 255 \<and> ze = 255 \<and> (\<forall>i<8. zeros_from (groups ip) i < 2))
       \<or> (zs < 8 \<and> ze = zs + zeros_from (groups ip) zs \<and> 2 \<le> zeros_from (groups ip) zs
          \<and> (\<forall>i<8. zeros_from (groups ip) i \<le> zeros_from (groups ip) zs)
          \<and> (\<forall>i<zs. zeros_from (groups ip) i < zeros_from (groups ip) zs))"
  using runStep_invariant [of "\<lambda>i. zeros_from (groups ip) i" 8 zs ze] assms
  by (simp add: zeroRun_runStep)

lemma foldr_max_le: "(\<forall>x\<in>set xs. f x \<le> m) \<Longrightarrow> foldr max (map f xs) (0::nat) \<le> m"
  by (induction xs) simp_all

lemma foldr_max_ge: "x \<in> set xs \<Longrightarrow> f x \<le> foldr max (map f xs) (0::nat)"
  by (induction xs) auto

lemma longest_zeros_eq:
  assumes "i < length gs" "\<forall>j<length gs. zeros_from gs j \<le> zeros_from gs i"
  shows "longest_zeros gs = zeros_from gs i"
proof (rule antisym)
  show "longest_zeros gs \<le> zeros_from gs i"
    unfolding longest_zeros_def using assms(2) by (intro foldr_max_le) simp
  show "zeros_from gs i \<le> longest_zeros gs"
    unfolding longest_zeros_def using assms(1) by (intro foldr_max_ge) simp
qed

lemma longest_zeros_small:
  assumes "\<forall>j<length gs. zeros_from gs j < 2"
  shows "longest_zeros gs < 2"
proof -
  have "longest_zeros gs \<le> 1"
    unfolding longest_zeros_def using assms by (intro foldr_max_le) (auto simp: numeral_2_eq_2 less_Suc_eq_le)
  then show ?thesis by simp
qed

lemma takeWhile_upt_first:
  assumes "i < n" "\<not> P i" "\<forall>j<i. P j"
  shows "length (takeWhile P [0..<n]) = i"
proof -
  have "[0..<n] = [0..<i] @ i # [Suc i..<n]"
    using assms(1) by (metis less_imp_le_nat upt_add_eq_append upt_conv_Cons zero_le plus_nat.add_0 le_add_diff_inverse)
  moreover have "takeWhile P ([0..<i] @ i # [Suc i..<n]) = [0..<i] @ takeWhile P (i # [Suc i..<n])"
    using assms(3) by (intro takeWhile_append2) simp
  ultimately have "takeWhile P [0..<n] = [0..<i]"
    using assms(2) by simp
  then show ?thesis by simp
qed

lemma first_longest_eq:
  assumes "i < length gs" "\<forall>j<length gs. zeros_from gs j \<le> zeros_from gs i"
    "\<forall>j<i. zeros_from gs j < zeros_from gs i"
  shows "first_longest gs = i"
proof -
  have m: "longest_zeros gs = zeros_from gs i"
    using assms(1,2) by (rule longest_zeros_eq)
  show ?thesis
    unfolding first_longest_def m
    using assms(1,3) by (intro takeWhile_upt_first) auto
qed

text \<open>Joining with a separator, as a concatenation.\<close>

lemma join_Cons: "join sep (x # xs) = x @ concat (map (\<lambda>y. sep @ y) xs)"
  by (induction xs arbitrary: x) simp_all

lemma join_upt:
  "a < b \<Longrightarrow> join sep (map h [a..<b]) = h a @ concat (map (\<lambda>j. sep @ h j) [Suc a..<b])"
  by (simp add: upt_conv_Cons join_Cons comp_def)

lemma colon_hex_take:
  assumes "n \<le> 8"
  shows "colon_hex (take n (groups ip)) = join '':'' (map (\<lambda>j. appendHex (v6u16 ip j)) [0..<n])"
proof -
  have "take n (groups ip) = map (\<lambda>j. unat (v6u16 ip j)) [0..<n]"
    using assms by (simp add: groups_map take_map)
  then show ?thesis
    by (simp add: colon_hex_def appendHex_hex comp_def)
qed

lemma colon_hex_drop:
  "colon_hex (drop n (groups ip)) = join '':'' (map (\<lambda>j. appendHex (v6u16 ip j)) [n..<8])"
proof -
  have "drop n (groups ip) = map (\<lambda>j. unat (v6u16 ip j)) [n..<8]"
    by (simp add: groups_map drop_map)
  then show ?thesis
    by (simp add: colon_hex_def appendHex_hex comp_def)
qed

text \<open>The output loop where it meets no compressed run.\<close>

lemma appendTo6_step:
  assumes "i < 8" "\<not> (i = zs \<and> i < ze)"
  shows "appendTo6 ip zs ze i
         = (if i > 0 then '':'' else []) @ appendHex (v6u16 ip i) @ appendTo6 ip zs ze (Suc i)"
proof -
  have n: "\<not> 8 \<le> i" using assms(1) by simp
  show ?thesis
    by (subst appendTo6.simps) (simp only: n assms(2) if_False Suc_eq_plus1)
qed

lemma appendTo6_jump:
  assumes "zs < 8" "zs < ze"
  shows "appendTo6 ip zs ze zs
         = ''::'' @ (if ze \<ge> 8 then []
                     else appendHex (v6u16 ip ze) @ appendTo6 ip zs ze (Suc ze))"
proof -
  have n: "\<not> 8 \<le> zs" using assms(1) by simp
  show ?thesis
    by (subst appendTo6.simps) (simp only: n assms(2) simp_thms if_False if_True Suc_eq_plus1)
qed

lemma appendTo6_end: "8 \<le> i \<Longrightarrow> appendTo6 ip zs ze i = []"
  by (subst appendTo6.simps) simp

lemma appendTo6_plain:
  assumes "\<forall>j. i \<le> j \<and> j < 8 \<longrightarrow> \<not> (j = zs \<and> j < ze)"
  shows "appendTo6 ip zs ze i
         = concat (map (\<lambda>j. (if j > 0 then '':'' else []) @ appendHex (v6u16 ip j)) [i..<8])"
  using assms
proof (induction "8 - i" arbitrary: i)
  case 0
  then show ?case
    by (simp add: appendTo6_end)
next
  case (Suc n)
  then have i: "i < 8" by simp
  have "n = 8 - Suc i" using Suc.hyps(2) by simp
  moreover have "\<forall>j. Suc i \<le> j \<and> j < 8 \<longrightarrow> \<not> (j = zs \<and> j < ze)"
    using Suc.prems by simp
  ultimately have ih: "appendTo6 ip zs ze (Suc i)
         = concat (map (\<lambda>j. (if j > 0 then '':'' else []) @ appendHex (v6u16 ip j)) [Suc i..<8])"
    by (rule Suc.hyps(1))
  have "\<not> (i = zs \<and> i < ze)"
    using Suc.prems i by simp
  then have "appendTo6 ip zs ze i
         = (if i > 0 then '':'' else []) @ appendHex (v6u16 ip i) @ appendTo6 ip zs ze (Suc i)"
    using i by (intro appendTo6_step)
  then show ?case
    using i ih by (simp add: upt_conv_Cons)
qed

lemma appendTo6_before:
  assumes "i \<le> zs" "zs < 8" "zs < ze"
  shows "appendTo6 ip zs ze i
         = concat (map (\<lambda>j. (if j > 0 then '':'' else []) @ appendHex (v6u16 ip j)) [i..<zs])
           @ appendTo6 ip zs ze zs"
  using assms
proof (induction "zs - i" arbitrary: i)
  case 0
  then show ?case by simp
next
  case (Suc n)
  then have i: "i < zs" by simp
  have "n = zs - Suc i" using Suc.hyps(2) by simp
  then have ih: "appendTo6 ip zs ze (Suc i)
         = concat (map (\<lambda>j. (if j > 0 then '':'' else []) @ appendHex (v6u16 ip j)) [Suc i..<zs])
           @ appendTo6 ip zs ze zs"
    using i Suc.prems by (intro Suc.hyps(1)) simp_all
  have "appendTo6 ip zs ze i
         = (if i > 0 then '':'' else []) @ appendHex (v6u16 ip i) @ appendTo6 ip zs ze (Suc i)"
    using i Suc.prems(2) by (intro appendTo6_step) simp_all
  then show ?case
    using i ih by (simp add: upt_conv_Cons)
qed

lemma plain_from_Suc:
  "concat (map (\<lambda>j. (if j > 0 then '':'' else []) @ appendHex (v6u16 ip j)) [Suc a..<n])
   = concat (map (\<lambda>j. '':'' @ appendHex (v6u16 ip j)) [Suc a..<n])"
proof -
  have "map (\<lambda>j. (if j > 0 then '':'' else []) @ appendHex (v6u16 ip j)) [Suc a..<n]
        = map (\<lambda>j. '':'' @ appendHex (v6u16 ip j)) [Suc a..<n]"
    by (intro map_cong) auto
  then show ?thesis
    by (rule arg_cong)
qed

lemma plain_from_0:
  "concat (map (\<lambda>j. (if j > 0 then '':'' else []) @ appendHex (v6u16 ip j)) [0..<n])
   = join '':'' (map (\<lambda>j. appendHex (v6u16 ip j)) [0..<n])"
proof (cases "0 < n")
  case False
  then show ?thesis by simp
next
  case True
  then have u: "[0..<n] = 0 # [Suc 0..<n]"
    by (rule upt_conv_Cons)
  have "concat (map (\<lambda>j. (if j > 0 then '':'' else []) @ appendHex (v6u16 ip j)) [0..<n])
        = appendHex (v6u16 ip 0)
          @ concat (map (\<lambda>j. (if j > 0 then '':'' else []) @ appendHex (v6u16 ip j)) [Suc 0..<n])"
    unfolding u by simp
  also have "\<dots> = appendHex (v6u16 ip 0)
          @ concat (map (\<lambda>j. '':'' @ appendHex (v6u16 ip j)) [Suc 0..<n])"
    by (simp only: plain_from_Suc)
  also have "\<dots> = join '':'' (map (\<lambda>j. appendHex (v6u16 ip j)) [0..<n])"
    using True by (simp only: join_upt)
  finally show ?thesis .
qed

lemma string6_no_run:
  assumes "zeroRun ip = (255, 255)"
  shows "string6 ip = colon_hex (groups ip)"
proof -
  have "appendTo6 ip 255 255 0
        = concat (map (\<lambda>j. (if j > 0 then '':'' else []) @ appendHex (v6u16 ip j)) [0..<8])"
    by (intro appendTo6_plain) simp
  also have "\<dots> = colon_hex (take 8 (groups ip))"
    by (simp only: plain_from_0 colon_hex_take [OF order_refl])
  finally show ?thesis
    using assms by (simp add: string6_def length_groups)
qed

lemma string6_run:
  assumes "zeroRun ip = (zs, ze)" "zs < 8" "zs < ze" "ze \<le> 8"
  shows "string6 ip = colon_hex (take zs (groups ip)) @ ''::'' @ colon_hex (drop ze (groups ip))"
proof -
  have a: "appendTo6 ip zs ze 0
        = concat (map (\<lambda>j. (if j > 0 then '':'' else []) @ appendHex (v6u16 ip j)) [0..<zs])
          @ appendTo6 ip zs ze zs"
    using assms(2,3) by (intro appendTo6_before) simp_all
  have b: "appendTo6 ip zs ze zs = ''::'' @ colon_hex (drop ze (groups ip))"
  proof (cases "ze \<ge> 8")
    case True
    then show ?thesis
      using assms(2,3) by (simp add: appendTo6_jump colon_hex_drop)
  next
    case False
    then have ze: "ze < 8" by simp
    have "appendTo6 ip zs ze (Suc ze)
        = concat (map (\<lambda>j. (if j > 0 then '':'' else []) @ appendHex (v6u16 ip j)) [Suc ze..<8])"
      using assms(3) by (intro appendTo6_plain) simp
    then have "appendTo6 ip zs ze (Suc ze)
        = concat (map (\<lambda>j. '':'' @ appendHex (v6u16 ip j)) [Suc ze..<8])"
      by (simp only: plain_from_Suc)
    then show ?thesis
      using assms(2,3) ze
      by (simp add: appendTo6_jump colon_hex_drop join_upt)
  qed
  show ?thesis
    using assms(1,2) a b
    by (simp add: string6_def plain_from_0 colon_hex_take)
qed

lemma string6_rfc5952: "string6 ip = rfc5952 (groups ip)"
proof -
  obtain zs ze where z: "zeroRun ip = (zs, ze)"
    by (cases "zeroRun ip") blast
  let ?gs = "groups ip"
  from zeroRun_cases [OF z] show ?thesis
  proof
    assume a: "zs = 255 \<and> ze = 255 \<and> (\<forall>i<8. zeros_from ?gs i < 2)"
    then have "longest_zeros ?gs < 2"
      by (intro longest_zeros_small) (simp add: length_groups)
    then show ?thesis
      using a z by (simp add: rfc5952_def string6_no_run Let_def)
  next
    assume a: "zs < 8 \<and> ze = zs + zeros_from ?gs zs \<and> 2 \<le> zeros_from ?gs zs
          \<and> (\<forall>i<8. zeros_from ?gs i \<le> zeros_from ?gs zs)
          \<and> (\<forall>i<zs. zeros_from ?gs i < zeros_from ?gs zs)"
    then have m: "longest_zeros ?gs = zeros_from ?gs zs"
      by (intro longest_zeros_eq) (simp_all add: length_groups)
    have f: "first_longest ?gs = zs"
      using a by (intro first_longest_eq) (simp_all add: length_groups)
    have "zeros_from ?gs zs \<le> 8 - zs"
      using zeros_from_le [of ?gs zs] by (simp add: length_groups)
    then have "ze \<le> 8"
      using a by linarith
    then have "string6 ip = colon_hex (take zs ?gs) @ ''::'' @ colon_hex (drop ze ?gs)"
      using a by (intro string6_run [OF z]) simp_all
    then show ?thesis
      using a m f by (simp add: rfc5952_def Let_def)
  qed
qed

lemma join_chars: "set (join sep xs) \<subseteq> set sep \<union> (\<Union>x\<in>set xs. set x)"
  by (induction sep xs rule: join.induct) auto

lemma dotted_decimal_chars: "set (dotted_decimal bs) \<subseteq> set digits \<union> {CHR ''.''}"
proof -
  have "set (dotted_decimal bs) \<subseteq> set ''.'' \<union> (\<Union>x\<in>set (map (\<lambda>b. decimal (unat b)) bs). set x)"
    unfolding dotted_decimal_def by (rule join_chars)
  then show ?thesis
    using decimal_chars by fastforce
qed

lemma colon_hex_chars: "set (colon_hex gs) \<subseteq> set digits \<union> {CHR '':''}"
proof -
  have "set (colon_hex gs) \<subseteq> set '':'' \<union> (\<Union>x\<in>set (map hex gs). set x)"
    unfolding colon_hex_def by (rule join_chars)
  then show ?thesis
    using hex_chars by fastforce
qed

lemma rfc5952_chars: "set (rfc5952 gs) \<subseteq> set digits \<union> {CHR '':''}"
  using colon_hex_chars [of gs] colon_hex_chars [of "take (first_longest gs) gs"]
    colon_hex_chars [of "drop (first_longest gs + longest_zeros gs) gs"]
  by (auto simp: rfc5952_def Let_def)

lemma string4_dotted:
  assumes "length p = 4"
  shows "string4 p = dotted_decimal p"
proof -
  obtain a b c d where p: "p = [a, b, c, d]"
    using assms by (rule list4_explicit)
  show ?thesis
    by (simp add: p string4_def dotted_decimal_def appendDecimal_decimal)
qed

lemma ipString_v4:
  assumes "To4 ip = Some p"
  shows "ipString ip = dotted_decimal p"
proof -
  have "length ip = 4 \<or> length ip = 16"
    using To4_cases [OF assms] by blast
  then have "ipString ip = string4 p"
    using assms by (auto simp: ipString_def IPv4len_def IPv6len_def)
  then show ?thesis
    using To4_length [OF assms] by (simp add: string4_dotted)
qed

lemma ipString_v6:
  assumes "To4 ip = None" "length ip = 16"
  shows "ipString ip = rfc5952 (groups ip)"
  using assms by (simp add: ipString_def IPv4len_def IPv6len_def string6_rfc5952)

lemma String_eq: "String r = ipString (Start r) @ ''-'' @ ipString (End r)"
  by (cases r) simp_all

lemma groups_ip6_1: "groups ip6_1 = [0, 0, 0, 0, 0, 0, 0, 1]"
  by (simp add: groups_def ip6_1_def upt_rec)

lemma groups_ip6_ffff: "groups ip6_ffff = [0, 0, 0, 0, 0, 0, 0, 65535]"
  by (simp add: groups_def ip6_ffff_def upt_rec)

lemmas render_defs =
  rfc5952_def longest_zeros_def first_longest_def zeros_from_def colon_hex_def
  dotted_decimal_def hex.simps decimal.simps digits_def upt_rec Let_def

section \<open>The claims\<close>

text \<open>C1: \<open>New\<close> is a total function, so it never panics, and it returns nil exactly when the
  pair is invalid: an address has no family, the two families differ, or start is above
  end in the byte-wise order of the fixed-width forms. Otherwise it returns a range that
  holds the two addresses as given, of their common family, with start <= end.
  (\<open>isV4RangeValid\<close> and \<open>isV6RangeValid\<close> are the spec's construction steps.)\<close>

theorem New_nil_iff_invalid:
  "(New s e = None \<longleftrightarrow>
      ipFamily s = None \<or> ipFamily e = None \<or> ipFamily s \<noteq> ipFamily e
      \<or> lex_less (fixedForm e) (fixedForm s))
   \<and> (\<forall>r. New s e = Some r \<longrightarrow>
         Start r = s \<and> End r = e \<and> ipFamily s = Some (Family r) \<and> ipFamily e = Some (Family r)
         \<and> lex_le (fixedForm s) (fixedForm e))"
proof (cases "To4 s")
  case sN: None
  show ?thesis
  proof (cases "To4 e")
    case eN: None
    show ?thesis
    proof (cases "length s = 16 \<and> length e = 16")
      case True
      then show ?thesis
        using sN eN
        by (auto simp: New_def isV4RangeValid_iff isV6RangeValid_iff ipFamily_def To16_len16
            fixedForm_v6 bytes_Compare_le_0 lex_le_iff_not_less Family_def)
    next
      case False
      then show ?thesis
        using sN eN
        by (auto simp: New_def isV4RangeValid_iff isV6RangeValid_iff ipFamily_None_iff)
    qed
  next
    case (Some e4)
    then show ?thesis
      using sN
      by (auto simp: New_def isV4RangeValid_iff isV6RangeValid_iff ipFamily_def)
  qed
next
  case sS: (Some s4)
  show ?thesis
  proof (cases "To4 e")
    case None
    then show ?thesis
      using sS
      by (auto simp: New_def isV4RangeValid_iff isV6RangeValid_iff ipFamily_def)
  next
    case (Some e4)
    then show ?thesis
      using sS
      by (auto simp: New_def isV4RangeValid_iff isV6RangeValid_iff ipFamily_def fixedForm_v4
          bytes_Compare_le_0 lex_le_iff_not_less Family_def)
  qed
qed

theorem New_nil_iff_invalid_witness:
  "New [10, 0, 0, 5] [10, 0, 0, 1] = None
   \<and> New [10, 0, 0, 1] [10, 0, 0, 255] = Some (v4Range [10, 0, 0, 1] [10, 0, 0, 255])
   \<and> ipFamily [10, 0, 0, 1] = Some V4Family
   \<and> lex_le (fixedForm [10, 0, 0, 1]) (fixedForm [10, 0, 0, 255])"
proof -
  have "lex_less (fixedForm [10, 0, 0, 1]) (fixedForm [10, 0, 0, 5])"
    by (simp add: eval_defs)
  then have a: "New [10, 0, 0, 5] [10, 0, 0, 1] = None"
    using New_nil_iff_invalid [of "[10, 0, 0, 5]" "[10, 0, 0, 1]"] by blast
  have b: "New [10, 0, 0, 1] [10, 0, 0, 255] = Some (v4Range [10, 0, 0, 1] [10, 0, 0, 255])"
    by (simp add: eval_defs)
  then have "ipFamily [10, 0, 0, 1] = Some (Family (v4Range [10, 0, 0, 1] [10, 0, 0, 255]))
      \<and> lex_le (fixedForm [10, 0, 0, 1]) (fixedForm [10, 0, 0, 255])"
    using New_nil_iff_invalid [of "[10, 0, 0, 1]" "[10, 0, 0, 255]"] by blast
  then show ?thesis
    using a b by (simp add: Family_def)
qed

text \<open>C2: For a constructed range whose two boundaries have one byte width, and a
  candidate of that width, \<open>Contains\<close> holds exactly when the candidate lies between start
  and end in byte-wise lexicographic order, which at equal width is the order of the
  big-endian values; both boundaries are contained, and a candidate strictly below start
  or strictly above end is not.\<close>

theorem Contains_iff_between:
  assumes "New s e = Some r" "length s = length e" "length ip = length s"
  shows "(Contains r ip \<longleftrightarrow> lex_le s ip \<and> lex_le ip e)
       \<and> (Contains r ip \<longleftrightarrow> be_int s \<le> be_int ip \<and> be_int ip \<le> be_int e)
       \<and> Contains r s \<and> Contains r e
       \<and> (lex_less ip s \<or> lex_less e ip \<longrightarrow> \<not> Contains r ip)"
proof -
  have f: "Start r = s" "End r = e"
    using New_fields [OF assms(1)] by simp_all
  have o: "bytes_Compare s e \<le> 0"
    using assms(1,2) by (rule New_raw_order)
  have c1: "Contains r ip \<longleftrightarrow> lex_le s ip \<and> lex_le ip e"
    by (simp add: Contains_iff f bytes_Compare_ge_0 bytes_Compare_le_0)
  have c2: "Contains r ip \<longleftrightarrow> be_int s \<le> be_int ip \<and> be_int ip \<le> be_int e"
    using assms(2,3) bytes_Compare_le_num [of s ip] bytes_Compare_le_num [of ip e]
      bytes_Compare_flip [of ip s]
    by (simp add: Contains_iff f)
  have c3: "Contains r s" "Contains r e"
    using o bytes_Compare_flip [of e s] by (simp_all add: Contains_iff f bytes_Compare_refl)
  have c4: "lex_less ip s \<or> lex_less e ip \<longrightarrow> \<not> Contains r ip"
    using bytes_Compare_neg [of ip s] bytes_Compare_pos [of ip e]
    by (auto simp: Contains_iff f)
  show ?thesis
    using c1 c2 c3 c4 by blast
qed

theorem Contains_iff_between_witness:
  "Contains (v4Range [10, 0, 0, 1] [10, 0, 0, 255]) [10, 0, 0, 5]
   \<and> Contains (v4Range [10, 0, 0, 1] [10, 0, 0, 255]) [10, 0, 0, 1]
   \<and> Contains (v4Range [10, 0, 0, 1] [10, 0, 0, 255]) [10, 0, 0, 255]
   \<and> \<not> Contains (v4Range [10, 0, 0, 1] [10, 0, 0, 255]) [10, 0, 0, 0]"
proof -
  let ?s = "[10, 0, 0, 1] :: IP" and ?e = "[10, 0, 0, 255] :: IP"
  have n: "New ?s ?e = Some (v4Range ?s ?e)"
    by (simp add: eval_defs)
  have l: "length ?s = length ?e" "length [10, 0, 0, 5 :: byte] = length ?s"
    "length [10, 0, 0, 0 :: byte] = length ?s"
    by simp_all
  have in5: "lex_le ?s [10, 0, 0, 5] \<and> lex_le [10, 0, 0, 5] ?e"
    by (simp add: eval_defs)
  have out0: "lex_less [10, 0, 0, 0] ?s"
    by (simp add: eval_defs)
  show ?thesis
    using Contains_iff_between [OF n l(1) l(2)] Contains_iff_between [OF n l(1) l(3)] in5 out0
    by blast
qed

text \<open>C3: For a constructed IPv4 range, \<open>Size\<close> does not panic and equals
  end_int - start_int + 1, where the two integers are the big-endian values of the 4-byte
  forms (\<open>To4\<close>) of the boundaries, each within 32 unsigned bits.\<close>

theorem Size_v4_big_endian:
  assumes "New s e = Some r" "Family r = V4Family"
  shows "\<exists>s4 e4. To4 (Start r) = Some s4 \<and> To4 (End r) = Some e4
           \<and> length s4 = 4 \<and> length e4 = 4
           \<and> 0 \<le> be_int s4 \<and> be_int s4 < 2 ^ 32 \<and> 0 \<le> be_int e4 \<and> be_int e4 < 2 ^ 32
           \<and> Size r = Some (be_int e4 - be_int s4 + 1)"
proof -
  obtain s4 e4 where r: "r = v4Range s e" and t: "To4 s = Some s4" "To4 e = Some e4"
    and z: "Size r = Some (be_int e4 - be_int s4 + 1)"
    using New_v4_Size [OF assms] by blast
  have l: "length s4 = 4" "length e4 = 4"
    using t by (simp_all add: To4_length)
  have "be_int s4 < 2 ^ 32" "be_int e4 < 2 ^ 32"
    using be_int_less [of s4] be_int_less [of e4] l by simp_all
  then show ?thesis
    using t l z be_int_nonneg [of s4] be_int_nonneg [of e4] by (simp add: r)
qed

theorem Size_v4_big_endian_witness:
  "Size (v4Range [10, 0, 0, 1] [10, 0, 0, 255]) = Some 255"
proof -
  let ?s = "[10, 0, 0, 1] :: IP" and ?e = "[10, 0, 0, 255] :: IP"
  have n: "New ?s ?e = Some (v4Range ?s ?e)"
    by (simp add: eval_defs)
  have f: "Family (v4Range ?s ?e) = V4Family"
    by (simp add: Family_def)
  obtain s4 e4 where t: "To4 (Start (v4Range ?s ?e)) = Some s4"
    "To4 (End (v4Range ?s ?e)) = Some e4"
    and z: "Size (v4Range ?s ?e) = Some (be_int e4 - be_int s4 + 1)"
    using Size_v4_big_endian [OF n f] by blast
  have "s4 = ?s" "e4 = ?e"
    using t by (simp_all add: To4_def IPv4len_def)
  then show ?thesis
    using z by simp
qed

text \<open>C4: For a constructed IPv6 range, both boundaries are 16 bytes wide and \<open>Size\<close>
  equals end_int - start_int + 1 as an unbounded integer, where the two integers are the
  big-endian values of the boundaries, each within 128 unsigned bits.\<close>

theorem Size_v6_big_endian:
  assumes "New s e = Some r" "Family r = V6Family"
  shows "length (Start r) = 16 \<and> length (End r) = 16
       \<and> 0 \<le> be_int (Start r) \<and> be_int (Start r) < 2 ^ 128
       \<and> 0 \<le> be_int (End r) \<and> be_int (End r) < 2 ^ 128
       \<and> Size r = Some (be_int (End r) - be_int (Start r) + 1)"
proof -
  have r: "r = v6Range s e" and l: "length s = 16" "length e = 16"
    and z: "Size r = Some (be_int e - be_int s + 1)"
    using New_v6_Size [OF assms] by blast+
  have "be_int s < 2 ^ 128" "be_int e < 2 ^ 128"
    using be_int_less [of s] be_int_less [of e] l by simp_all
  then show ?thesis
    using l z be_int_nonneg [of s] be_int_nonneg [of e] by (simp add: r)
qed

theorem Size_v6_big_endian_witness:
  "Size (v6Range ip6_1 ip6_ffff) = Some 65535"
proof -
  have n: "New ip6_1 ip6_ffff = Some (v6Range ip6_1 ip6_ffff)"
    by (simp add: eval_defs)
  have f: "Family (v6Range ip6_1 ip6_ffff) = V6Family"
    by (simp add: Family_def)
  have "Size (v6Range ip6_1 ip6_ffff)
          = Some (be_int (End (v6Range ip6_1 ip6_ffff)) - be_int (Start (v6Range ip6_1 ip6_ffff)) + 1)"
    using Size_v6_big_endian [OF n f] by blast
  then show ?thesis
    by (simp add: ip6_1_def ip6_ffff_def)
qed

text \<open>C5: Every range the constructor returns has a size, and it is at least 1; for
  every address that has a family, construction with start = end succeeds and the size
  is exactly 1. (The order check behind this is the spec's construction step.)\<close>

theorem Size_at_least_1:
  "(New s e = Some r \<longrightarrow> (\<exists>n. Size r = Some n \<and> 1 \<le> n))
   \<and> (ipFamily a \<noteq> None \<longrightarrow> (\<exists>r'. New a a = Some r' \<and> Size r' = Some 1))"
proof (intro conjI impI)
  assume n: "New s e = Some r"
  show "\<exists>n. Size r = Some n \<and> 1 \<le> n"
  proof (cases "Family r")
    case V4Family
    then show ?thesis
      using New_v4_Size [OF n] by fastforce
  next
    case V6Family
    then show ?thesis
      using New_v6_Size [OF n] by fastforce
  qed
next
  assume a: "ipFamily a \<noteq> None"
  show "\<exists>r'. New a a = Some r' \<and> Size r' = Some 1"
  proof (cases "To4 a")
    case None
    then have l: "length a = 16"
      using a by (simp add: ipFamily_None_iff)
    then have "New a a = Some (v6Range a a)"
      using None by (simp add: New_v6_iff isV6RangeValid_iff bytes_Compare_refl)
    then show ?thesis by simp
  next
    case (Some a4)
    then have "New a a = Some (v4Range a a)"
      by (simp add: New_v4_iff isV4RangeValid_iff bytes_Compare_refl)
    moreover have "Size (v4Range a a) = Some 1"
      using Size_v4 [OF Some Some] by simp
    ultimately show ?thesis by simp
  qed
qed

theorem Size_at_least_1_witness:
  "(\<exists>n. Size (v4Range [10, 0, 0, 1] [10, 0, 0, 255]) = Some n \<and> 1 \<le> n)
   \<and> (\<exists>r'. New [192, 168, 1, 1] [192, 168, 1, 1] = Some r' \<and> Size r' = Some 1)"
proof -
  have n: "New [10, 0, 0, 1] [10, 0, 0, 255] = Some (v4Range [10, 0, 0, 1] [10, 0, 0, 255])"
    by (simp add: eval_defs)
  have a: "ipFamily [192, 168, 1, 1] \<noteq> None"
    by (simp add: eval_defs)
  show ?thesis
    using Size_at_least_1 [of "[10, 0, 0, 1]" "[10, 0, 0, 255]" _ "[192, 168, 1, 1]"] n a
    by blast
qed

text \<open>C6: Constructing the range from \<open>::\<close> to
  \<open>ffff:ffff:ffff:ffff:ffff:ffff:ffff:ffff\<close> succeeds and gives an IPv6 range whose size is
  2^128, the number of all IPv6 addresses.\<close>

theorem full_v6_space_size:
  "New ip6_zero ip6_max = Some (v6Range ip6_zero ip6_max)
   \<and> Family (v6Range ip6_zero ip6_max) = V6Family
   \<and> Size (v6Range ip6_zero ip6_max) = Some (2 ^ 128)"
  by (simp add: eval_defs SetBytes_def)

text \<open>The size of that range is therefore not 2^128 - 1.\<close>

theorem full_v6_space_size_counterexample:
  "New ip6_zero ip6_max = Some (v6Range ip6_zero ip6_max)
   \<and> Size (v6Range ip6_zero ip6_max) \<noteq> Some (2 ^ 128 - 1)"
  by (simp add: eval_defs SetBytes_def)

text \<open>C7: Two addresses of one family with start <= end in the byte-wise order of their
  fixed-width forms always construct a range, and its family is theirs. The IPv4 check
  comes first: whenever it passes the result is the IPv4 variant, and an IPv6 range only
  comes from two addresses that \<open>To4\<close> rejects.
  (\<open>isV4RangeValid\<close> and \<open>isV6RangeValid\<close> are the spec's construction steps.)\<close>

theorem New_family:
  "(ipFamily s = Some f \<and> ipFamily e = Some f \<and> lex_le (fixedForm s) (fixedForm e)
      \<longrightarrow> (\<exists>r. New s e = Some r \<and> Family r = f))
   \<and> (isV4RangeValid s e \<longrightarrow> New s e = Some (v4Range s e))
   \<and> (New s e = Some r \<and> Family r = V6Family
      \<longrightarrow> To4 s = None \<and> To4 e = None \<and> \<not> isV4RangeValid s e)"
proof -
  have p1: "\<exists>r. New s e = Some r \<and> Family r = f"
    if a: "ipFamily s = Some f \<and> ipFamily e = Some f \<and> lex_le (fixedForm s) (fixedForm e)"
  proof (cases f)
    case V4Family
    then obtain s4 e4 where t: "To4 s = Some s4" "To4 e = Some e4"
      using a by (auto simp: ipFamily_v4_iff)
    then have "bytes_Compare s4 e4 \<le> 0"
      using a by (simp add: fixedForm_v4 bytes_Compare_le_0)
    then have "New s e = Some (v4Range s e)"
      using t by (simp add: New_v4_iff isV4RangeValid_iff)
    then show ?thesis
      using V4Family by (simp add: Family_def)
  next
    case V6Family
    then have t: "To4 s = None" "length s = 16" "To4 e = None" "length e = 16"
      using a by (simp_all add: ipFamily_v6_iff)
    then have "bytes_Compare s e \<le> 0"
      using a by (simp add: fixedForm_v6 bytes_Compare_le_0)
    then have "New s e = Some (v6Range s e)"
      using t by (simp add: New_v6_iff isV6RangeValid_iff)
    then show ?thesis
      using V6Family by (simp add: Family_def)
  qed
  have p2: "New s e = Some (v4Range s e)" if "isV4RangeValid s e"
    using that by (simp add: New_def)
  have p3: "To4 s = None \<and> To4 e = None \<and> \<not> isV4RangeValid s e"
    if "New s e = Some r \<and> Family r = V6Family"
  proof -
    have "isV6RangeValid s e"
      using that by (auto simp: Family_v6_iff New_v6_iff)
    then show ?thesis
      using not_both_valid [of s e] by (auto simp: isV6RangeValid_iff)
  qed
  show ?thesis
    using p1 p2 p3 by blast
qed

theorem New_family_witness:
  "(\<exists>r. New [10, 0, 0, 1] [10, 0, 0, 255] = Some r \<and> Family r = V4Family)
   \<and> (\<exists>r. New ip6_1 ip6_ffff = Some r \<and> Family r = V6Family)
   \<and> To4 ip6_1 = None"
proof -
  have a: "ipFamily [10, 0, 0, 1] = Some V4Family \<and> ipFamily [10, 0, 0, 255] = Some V4Family
      \<and> lex_le (fixedForm [10, 0, 0, 1]) (fixedForm [10, 0, 0, 255])"
    by (simp add: eval_defs)
  have b: "ipFamily ip6_1 = Some V6Family \<and> ipFamily ip6_ffff = Some V6Family
      \<and> lex_le (fixedForm ip6_1) (fixedForm ip6_ffff)"
    by (simp add: eval_defs)
  have c: "New ip6_1 ip6_ffff = Some (v6Range ip6_1 ip6_ffff)
      \<and> Family (v6Range ip6_1 ip6_ffff) = V6Family"
    by (simp add: eval_defs)
  show ?thesis
    using New_family [of "[10, 0, 0, 1]" V4Family "[10, 0, 0, 255]"]
      New_family [of ip6_1 V6Family ip6_ffff "v6Range ip6_1 ip6_ffff"] a b c
    by blast
qed

text \<open>C8: The 16-byte IPv4-mapped form of an address has the same \<open>To4\<close> form as its
  4-byte form and counts as IPv4; every range constructed with it as a boundary is an
  IPv4 range, construction from two mapped forms succeeds or fails as it does from the
  4-byte forms and with the same family, and it succeeds when start <= end.
  (\<open>isV4RangeValid\<close> and \<open>isV6RangeValid\<close> are the spec's construction steps.)\<close>

theorem mapped_form_is_v4:
  "To4 (IPv4 a0 a1 a2 a3) = To4 [a0, a1, a2, a3]
   \<and> ipFamily (IPv4 a0 a1 a2 a3) = Some V4Family
   \<and> (\<forall>e r. New (IPv4 a0 a1 a2 a3) e = Some r \<longrightarrow> Family r = V4Family)
   \<and> (\<forall>s r. New s (IPv4 a0 a1 a2 a3) = Some r \<longrightarrow> Family r = V4Family)
   \<and> map_option Family (New (IPv4 a0 a1 a2 a3) (IPv4 b0 b1 b2 b3))
       = map_option Family (New [a0, a1, a2, a3] [b0, b1, b2, b3])
   \<and> (lex_le [a0, a1, a2, a3] [b0, b1, b2, b3] \<longrightarrow>
        New (IPv4 a0 a1 a2 a3) (IPv4 b0 b1 b2 b3)
          = Some (v4Range (IPv4 a0 a1 a2 a3) (IPv4 b0 b1 b2 b3)))"
proof -
  have t: "To4 (IPv4 a0 a1 a2 a3) = Some [a0, a1, a2, a3]" "To4 [a0, a1, a2, a3] = Some [a0, a1, a2, a3]"
    "To4 (IPv4 b0 b1 b2 b3) = Some [b0, b1, b2, b3]" "To4 [b0, b1, b2, b3] = Some [b0, b1, b2, b3]"
    by (simp_all add: To4_IPv4 To4_len4)
  have v: "isV4RangeValid (IPv4 a0 a1 a2 a3) (IPv4 b0 b1 b2 b3)
           \<longleftrightarrow> isV4RangeValid [a0, a1, a2, a3] [b0, b1, b2, b3]"
    by (simp only: isV4RangeValid_iff t)
  have n6: "\<not> isV6RangeValid (IPv4 a0 a1 a2 a3) e" "\<not> isV6RangeValid s (IPv4 a0 a1 a2 a3)"
    "\<not> isV6RangeValid [a0, a1, a2, a3] e" for s e
    by (simp_all add: isV6RangeValid_iff t)
  have c1: "To4 (IPv4 a0 a1 a2 a3) = To4 [a0, a1, a2, a3]"
    by (simp only: t)
  have c2: "ipFamily (IPv4 a0 a1 a2 a3) = Some V4Family"
    by (simp add: ipFamily_v4_iff t)
  have c3: "\<forall>e r. New (IPv4 a0 a1 a2 a3) e = Some r \<longrightarrow> Family r = V4Family"
    using n6 by (auto simp: New_def Family_def split: if_splits)
  have c4: "\<forall>s r. New s (IPv4 a0 a1 a2 a3) = Some r \<longrightarrow> Family r = V4Family"
    using n6 by (auto simp: New_def Family_def split: if_splits)
  have c5: "map_option Family (New (IPv4 a0 a1 a2 a3) (IPv4 b0 b1 b2 b3))
       = map_option Family (New [a0, a1, a2, a3] [b0, b1, b2, b3])"
    using n6 v by (simp add: New_def Family_def)
  have c6: "lex_le [a0, a1, a2, a3] [b0, b1, b2, b3] \<longrightarrow>
        New (IPv4 a0 a1 a2 a3) (IPv4 b0 b1 b2 b3)
          = Some (v4Range (IPv4 a0 a1 a2 a3) (IPv4 b0 b1 b2 b3))"
    by (simp only: New_v4_iff isV4RangeValid_iff t bytes_Compare_le_0 [symmetric]) simp
  show ?thesis
    using c1 c2 c3 c4 c5 c6 by blast
qed

theorem mapped_form_is_v4_witness:
  "map_option Family (New (IPv4 10 0 0 1) (IPv4 10 0 0 255)) = Some V4Family
   \<and> map_option Family (New [10, 0, 0, 1] [10, 0, 0, 255]) = Some V4Family"
proof -
  have "lex_le [10, 0, 0, 1] [10, 0, 0, 255 :: byte]"
    by (simp add: eval_defs)
  then have "New (IPv4 10 0 0 1) (IPv4 10 0 0 255) = Some (v4Range (IPv4 10 0 0 1) (IPv4 10 0 0 255))"
    using mapped_form_is_v4 [of 10 0 0 1 10 0 0 255] by blast
  then have "map_option Family (New (IPv4 10 0 0 1) (IPv4 10 0 0 255)) = Some V4Family"
    by (simp add: Family_def)
  then show ?thesis
    using mapped_form_is_v4 [of 10 0 0 1 10 0 0 255] by simp
qed

text \<open>C10: \<open>Contains\<close> compares the candidate's bytes as they are given. The range
  10.0.0.1 - 10.0.0.255 built from 16-byte mapped boundaries contains 10.0.0.5 in its
  16-byte form but not in its 4-byte form, though both forms denote the same number
  inside the range; and the same range built from 4-byte boundaries contains the 4-byte
  form but not the 16-byte form.\<close>

theorem Contains_depends_on_width:
  "New (IPv4 10 0 0 1) (IPv4 10 0 0 255) = Some (v4Range (IPv4 10 0 0 1) (IPv4 10 0 0 255))
   \<and> length (IPv4 10 0 0 1) = 16 \<and> length (IPv4 10 0 0 255) = 16
   \<and> To4 (IPv4 10 0 0 5) = Some [10, 0, 0, 5]
   \<and> v4ToInt (IPv4 10 0 0 1) = Some 167772161
   \<and> v4ToInt [10, 0, 0, 5] = Some 167772165
   \<and> v4ToInt (IPv4 10 0 0 5) = Some 167772165
   \<and> v4ToInt (IPv4 10 0 0 255) = Some 167772415
   \<and> Contains (v4Range (IPv4 10 0 0 1) (IPv4 10 0 0 255)) (IPv4 10 0 0 5)
   \<and> \<not> Contains (v4Range (IPv4 10 0 0 1) (IPv4 10 0 0 255)) [10, 0, 0, 5]
   \<and> New [10, 0, 0, 1] [10, 0, 0, 255] = Some (v4Range [10, 0, 0, 1] [10, 0, 0, 255])
   \<and> Contains (v4Range [10, 0, 0, 1] [10, 0, 0, 255]) [10, 0, 0, 5]
   \<and> \<not> Contains (v4Range [10, 0, 0, 1] [10, 0, 0, 255]) (IPv4 10 0 0 5)"
  by (simp add: eval_defs v4ToInt_def)

text \<open>C9: For a constructed range, \<open>String\<close> is the text of start, one \<open>-\<close>, and the text
  of end, and neither text contains a \<open>-\<close>. For an IPv4 range each text is the dotted
  decimal form of the address's four bytes (also when the address is stored in 16-byte
  form); for an IPv6 range each text is the colon-hex form of the eight groups, without
  leading zeros, with the leftmost longest run of two or more zero groups written
  \<open>::\<close>.\<close>

theorem String_canonical:
  assumes "New s e = Some r"
  shows "String r = ipString s @ ''-'' @ ipString e
       \<and> CHR ''-'' \<notin> set (ipString s) \<and> CHR ''-'' \<notin> set (ipString e)
       \<and> (Family r = V4Family \<longrightarrow>
            ipString s = dotted_decimal (fixedForm s) \<and> ipString e = dotted_decimal (fixedForm e))
       \<and> (Family r = V6Family \<longrightarrow>
            ipString s = rfc5952 (groups s) \<and> ipString e = rfc5952 (groups e))"
proof -
  have st: "String r = ipString s @ ''-'' @ ipString e"
    using New_fields [OF assms] by (simp add: String_eq)
  have v4: "ipString s = dotted_decimal (fixedForm s) \<and> ipString e = dotted_decimal (fixedForm e)"
    if "Family r = V4Family"
  proof -
    have "isV4RangeValid s e"
      using assms that by (auto simp: Family_v4_iff New_v4_iff)
    then obtain s4 e4 where "To4 s = Some s4" "To4 e = Some e4"
      by (auto simp: isV4RangeValid_iff)
    then show ?thesis
      by (simp add: ipString_v4 fixedForm_v4)
  qed
  have v6: "ipString s = rfc5952 (groups s) \<and> ipString e = rfc5952 (groups e)"
    if "Family r = V6Family"
  proof -
    have "isV6RangeValid s e"
      using assms that by (auto simp: Family_v6_iff New_v6_iff)
    then show ?thesis
      by (simp add: isV6RangeValid_iff ipString_v6)
  qed
  have nd: "CHR ''-'' \<notin> set (ipString s) \<and> CHR ''-'' \<notin> set (ipString e)"
  proof (cases "Family r")
    case V4Family
    then show ?thesis
      using v4 dotted_decimal_chars [of "fixedForm s"] dotted_decimal_chars [of "fixedForm e"]
        dash_not_digit by auto
  next
    case V6Family
    then show ?thesis
      using v6 rfc5952_chars [of "groups s"] rfc5952_chars [of "groups e"] dash_not_digit
      by auto
  qed
  show ?thesis
    using st nd v4 v6 by blast
qed

theorem String_canonical_witness:
  "String (v4Range [192, 168, 1, 1] [192, 168, 1, 1]) = ''192.168.1.1-192.168.1.1''
   \<and> String (v6Range ip6_1 ip6_ffff) = ''::1-::ffff''"
proof -
  let ?a = "[192, 168, 1, 1] :: IP"
  have n4: "New ?a ?a = Some (v4Range ?a ?a)"
    by (simp add: eval_defs)
  have f4: "Family (v4Range ?a ?a) = V4Family" "fixedForm ?a = ?a"
    by (simp_all add: eval_defs)
  have d: "dotted_decimal ?a = ''192.168.1.1''"
    by (simp add: render_defs)
  have "String (v4Range ?a ?a) = ipString ?a @ ''-'' @ ipString ?a
      \<and> ipString ?a = dotted_decimal (fixedForm ?a)"
    using String_canonical [OF n4] f4(1) by blast
  then have a: "String (v4Range ?a ?a) = ''192.168.1.1-192.168.1.1''"
    by (simp only: f4(2) d) simp
  have n6: "New ip6_1 ip6_ffff = Some (v6Range ip6_1 ip6_ffff)"
    by (simp add: eval_defs)
  have f6: "Family (v6Range ip6_1 ip6_ffff) = V6Family"
    by (simp add: eval_defs)
  have g: "rfc5952 (groups ip6_1) = ''::1''" "rfc5952 (groups ip6_ffff) = ''::ffff''"
    unfolding groups_ip6_1 groups_ip6_ffff by (simp_all add: render_defs)
  have "String (v6Range ip6_1 ip6_ffff) = ipString ip6_1 @ ''-'' @ ipString ip6_ffff
      \<and> ipString ip6_1 = rfc5952 (groups ip6_1) \<and> ipString ip6_ffff = rfc5952 (groups ip6_ffff)"
    using String_canonical [OF n6] f6 by blast
  then have b: "String (v6Range ip6_1 ip6_ffff) = ''::1-::ffff''"
    by (simp only: g) simp
  show ?thesis
    using a b by blast
qed

end
